theory Spec2Isabelle
  imports Main
begin

section \<open>The phone-scene triggering component\<close>

text \<open>
  A shallow embedding of \<^verbatim>\<open>SceneTriggeringComponent\<close>
  (\<^verbatim>\<open>mastodon_sim/concordia/components/triggering.py\<close>). The component
  is pure control flow around collaborators that live outside the file: the language
  model, the scene runtime, the clock, the agents and the shared memory. The world the
  component acts on is an explicit record that every operation takes and returns; an
  exception is the \<open>Inl\<close> branch of a sum, returned with the world as the raise left it.
\<close>

subsection \<open>Data\<close>

type_synonym event = string

text \<open>
  What can be raised. \<open>StopIteration\<close> is what \<^verbatim>\<open>next(...)\<close> raises on an
  exhausted generator; everything a collaborator raises is a \<open>CollaboratorFailure\<close>.
\<close>

datatype error = StopIteration | CollaboratorFailure string

text \<open>
  \<^verbatim>\<open>basic_agent.BasicAgent\<close>: the component reads \<^verbatim>\<open>player.name\<close> and calls
  \<^verbatim>\<open>player.observe\<close>. \<open>ident\<close> is the identity of the Python object, the key of
  its private log in the world.
\<close>

record player =
  ident :: nat
  name :: string

text \<open>
  Modelled from the spec: the class \<^verbatim>\<open>apps.Phone\<close> is not among the sources.
  The component reads \<^verbatim>\<open>p.player_name\<close> and calls \<^verbatim>\<open>p.description()\<close>;
  the spec gives a device a name and "a capability to produce a human-readable
  description of its current state", a read that returns a text.
\<close>

record phone =
  player_name :: string
  description :: string

text \<open>
  Modelled from the spec: \<^verbatim>\<open>game_clock.MultiIntervalClock\<close> is not among the
  sources; the spec gives the clock "a two-valued mode (normal, accelerated)".
\<close>

datatype gear = Normal | Accelerated

text \<open>
  The two prompts put to the language model. The text of the first is the literal of
  \<^verbatim>\<open>_is_phone_event\<close>; the text of the second is the f-string of
  \<^verbatim>\<open>_get_player_from_event\<close>, whose only variable part is \<^verbatim>\<open>player.name\<close>.
\<close>

datatype question = PhoneEventQuestion | PlayerUsingPhoneQuestion string

text \<open>
  Every call the component makes on a collaborator, with what the call returned where
  it returns something. The world keeps them in the order they were made, each with the
  gear the clock was in when the call was made.
\<close>

datatype ('sc) call =
    SemiVerbose string
  | YesNoQuestion string question "error + bool"
  | SceneBuild player phone "error + 'sc"
  | HigherGearEnter
  | RunEpisode 'sc "error + event list"
  | HigherGearExit
  | Observe nat event
  | MemoryAdd event

text \<open>
  The world, all of it shared and mutable: \<open>ext\<close> is the state of the collaborators
  that the component cannot see (the language model's sampling state, the clock's
  time, the state of the scene runtime); \<open>gear\<close> the clock's gear; \<open>logs\<close> the
  private log of each agent, by the agent's identity; \<open>memory\<close> the shared
  associative memory, in insertion order; \<open>calls\<close> the record of the calls made.
\<close>

record ('x, 'sc) world =
  ext :: 'x
  gear :: gear
  logs :: "nat \<Rightarrow> event list"
  memory :: "event list"
  calls :: "(gear \<times> 'sc call) list"

text \<open>
  Modelled from the spec: the language model, \<^verbatim>\<open>scene.build\<close>, the scene's
  \<^verbatim>\<open>run_episode\<close>, the agents and the associative memory are not among the
  sources; they are the collaborators the component is constructed with, taken as
  parameters. Each call on one of them may raise and may change \<open>ext\<close>. By the spec
  "Shared Memory and each Actor's log are mutated only from within merge" and the
  clock's gear is changed only by the scoped accelerated-gear entry, so a collaborator
  acts on \<open>ext\<close> alone. \<open>observe_outcome\<close> and \<open>add_outcome\<close> say whether a call of
  \<^verbatim>\<open>player.observe\<close> or of \<^verbatim>\<open>self._memory.add\<close> returns or raises.
\<close>

record ('x, 'sc) collaborators =
  yes_no_question :: "string \<Rightarrow> question \<Rightarrow> 'x \<Rightarrow> (error + bool) \<times> 'x"
  build :: "player \<Rightarrow> phone \<Rightarrow> 'x \<Rightarrow> (error + 'sc) \<times> 'x"
  run_episode :: "'sc \<Rightarrow> 'x \<Rightarrow> (error + event list) \<times> 'x"
  observe_outcome :: "player \<Rightarrow> event \<Rightarrow> 'x \<Rightarrow> (error + unit) \<times> 'x"
  add_outcome :: "event \<Rightarrow> 'x \<Rightarrow> (error + unit) \<times> 'x"

subsection \<open>Calls on the collaborators\<close>

definition emit :: "'sc call \<Rightarrow> ('x, 'sc) world \<Rightarrow> ('x, 'sc) world" where
  "emit c w = w\<lparr>calls := calls w @ [(gear w, c)]\<rparr>"

text \<open>\<^verbatim>\<open>self._logger.semi_verbose(msg)\<close>\<close>

definition semi_verbose :: "string \<Rightarrow> ('x, 'sc) world \<Rightarrow> ('x, 'sc) world" where
  "semi_verbose msg w = emit (SemiVerbose msg) w"

text \<open>
  A yes/no question put to a document whose only content is the statement \<open>ctx\<close>:
  \<^verbatim>\<open>document.yes_no_question(q)\<close>.
\<close>

definition ask ::
  "('x, 'sc) collaborators \<Rightarrow> string \<Rightarrow> question \<Rightarrow> ('x, 'sc) world
     \<Rightarrow> (error + bool) \<times> ('x, 'sc) world" where
  "ask env ctx q w =
     (case yes_no_question env ctx q (ext w) of
        (r, x) \<Rightarrow> (r, emit (YesNoQuestion ctx q r) (w\<lparr>ext := x\<rparr>)))"

text \<open>\<^verbatim>\<open>scene.build(player, phone, clock=..., model=..., memory_factory=...)\<close>\<close>

definition scene_build ::
  "('x, 'sc) collaborators \<Rightarrow> player \<Rightarrow> phone \<Rightarrow> ('x, 'sc) world
     \<Rightarrow> (error + 'sc) \<times> ('x, 'sc) world" where
  "scene_build env p ph w =
     (case build env p ph (ext w) of
        (r, x) \<Rightarrow> (r, emit (SceneBuild p ph r) (w\<lparr>ext := x\<rparr>)))"

text \<open>\<^verbatim>\<open>phone_scene.run_episode()\<close>\<close>

definition scene_run_episode ::
  "('x, 'sc) collaborators \<Rightarrow> 'sc \<Rightarrow> ('x, 'sc) world
     \<Rightarrow> (error + event list) \<times> ('x, 'sc) world" where
  "scene_run_episode env sc w =
     (case run_episode env sc (ext w) of
        (r, x) \<Rightarrow> (r, emit (RunEpisode sc r) (w\<lparr>ext := x\<rparr>)))"

text \<open>
  Modelled from the spec: the clock is not among the sources. This is the entry of
  \<^verbatim>\<open>with self._clock.higher_gear():\<close>; by the spec "entering the accelerated gear
  is a scoped operation", "exactly one gear is active at a time" and the accelerated
  gear is "a single process-wide exclusive mode": from normal gear the entry puts the
  clock in accelerated gear; while the accelerated gear is held there is no higher gear
  to enter, the entry raises and leaves the gear as it is.
\<close>

definition higher_gear_enter :: "('x, 'sc) world \<Rightarrow> (error + unit) \<times> ('x, 'sc) world" where
  "higher_gear_enter w =
     (if gear w = Accelerated
      then (Inl (CollaboratorFailure ''accelerated gear already held''), emit HigherGearEnter w)
      else (Inr (), (emit HigherGearEnter w)\<lparr>gear := Accelerated\<rparr>))"

text \<open>
  Modelled from the spec: the clock is not among the sources. This is the exit of
  \<^verbatim>\<open>with self._clock.higher_gear():\<close>; by the spec the scoped operation
  "unconditionally restores the normal gear on exit, including on failure".
\<close>

definition higher_gear_exit :: "('x, 'sc) world \<Rightarrow> ('x, 'sc) world" where
  "higher_gear_exit w = (emit HigherGearExit w)\<lparr>gear := Normal\<rparr>"

text \<open>
  Modelled from the spec: the agents are not among the sources. This is
  \<^verbatim>\<open>player.observe(event)\<close>; by the spec to observe a new event is to "append to
  its log". Like every call on a collaborator it may raise; a call that raises has
  appended nothing.
\<close>

definition observe ::
  "('x, 'sc) collaborators \<Rightarrow> player \<Rightarrow> event \<Rightarrow> ('x, 'sc) world
     \<Rightarrow> (error + unit) \<times> ('x, 'sc) world" where
  "observe env p e w =
     (case observe_outcome env p e (ext w) of
        (Inl err, x) \<Rightarrow> (Inl err, emit (Observe (ident p) e) (w\<lparr>ext := x\<rparr>))
      | (Inr u, x) \<Rightarrow>
          (Inr (), (emit (Observe (ident p) e) (w\<lparr>ext := x\<rparr>))
                     \<lparr>logs := (logs w)(ident p := logs w (ident p) @ [e])\<rparr>))"

text \<open>
  Modelled from the spec: the associative memory is not among the sources. This is
  \<^verbatim>\<open>self._memory.add(event)\<close>; by the spec the shared memory is "an append-only
  associative store", "mutated only by appends". Like every call on a collaborator it
  may raise; a call that raises has appended nothing.
\<close>

definition memory_add ::
  "('x, 'sc) collaborators \<Rightarrow> event \<Rightarrow> ('x, 'sc) world
     \<Rightarrow> (error + unit) \<times> ('x, 'sc) world" where
  "memory_add env e w =
     (case add_outcome env e (ext w) of
        (Inl err, x) \<Rightarrow> (Inl err, emit (MemoryAdd e) (w\<lparr>ext := x\<rparr>))
      | (Inr u, x) \<Rightarrow>
          (Inr (), (emit (MemoryAdd e) (w\<lparr>ext := x\<rparr>))\<lparr>memory := memory w @ [e]\<rparr>))"

subsection \<open>The component\<close>

text \<open>\<^verbatim>\<open>_is_phone_event\<close>\<close>

definition is_phone_event ::
  "('x, 'sc) collaborators \<Rightarrow> string \<Rightarrow> ('x, 'sc) world
     \<Rightarrow> (error + bool) \<times> ('x, 'sc) world" where
  "is_phone_event env event_statement w =
     ask env (''Event: '' @ event_statement) PhoneEventQuestion w"

text \<open>
  The loop \<^verbatim>\<open>for player in self._players\<close> of \<^verbatim>\<open>_get_player_from_event\<close>.
  \<^verbatim>\<open>filter_copy_as_statement(document)\<close> gives every question a fresh copy of the
  document, so each is asked against the same statement \<open>ctx\<close>.
\<close>

fun players_loop ::
  "('x, 'sc) collaborators \<Rightarrow> string \<Rightarrow> player list \<Rightarrow> ('x, 'sc) world
     \<Rightarrow> (error + player option) \<times> ('x, 'sc) world" where
  "players_loop env ctx [] w = (Inr None, w)"
| "players_loop env ctx (p # ps) w =
     (case ask env ctx (PlayerUsingPhoneQuestion (name p)) w of
        (Inl e, w') \<Rightarrow> (Inl e, w')
      | (Inr is_player_using_phone, w') \<Rightarrow>
          if is_player_using_phone then (Inr (Some p), w')
          else players_loop env ctx ps w')"

definition player_context :: "string \<Rightarrow> string" where
  "player_context event_statement =
     ''Event: '' @ event_statement
       @ ''. This event states that someone interacted with their phone.''"

text \<open>\<^verbatim>\<open>_get_player_from_event\<close>\<close>

definition get_player_from_event ::
  "('x, 'sc) collaborators \<Rightarrow> player list \<Rightarrow> string \<Rightarrow> ('x, 'sc) world
     \<Rightarrow> (error + player option) \<times> ('x, 'sc) world" where
  "get_player_from_event env players event_statement w =
     players_loop env (player_context event_statement) players w"

text \<open>
  \<^verbatim>\<open>_get_phone\<close>: \<^verbatim>\<open>next(p for p in self._phones if p.player_name == player_name)\<close>,
  the first phone of the sequence that passes the test, \<^verbatim>\<open>StopIteration\<close> when the
  generator ends without one.
\<close>

fun get_phone :: "phone list \<Rightarrow> string \<Rightarrow> error + phone" where
  "get_phone [] n = Inl StopIteration"
| "get_phone (p # ps) n = (if player_name p = n then Inr p else get_phone ps n)"

text \<open>\<^verbatim>\<open>_get_player_using_phone\<close>\<close>

definition get_player_using_phone ::
  "('x, 'sc) collaborators \<Rightarrow> player list \<Rightarrow> string \<Rightarrow> ('x, 'sc) world
     \<Rightarrow> (error + player option) \<times> ('x, 'sc) world" where
  "get_player_using_phone env players event_statement w =
     (case is_phone_event env event_statement
             (semi_verbose ''Checking if the phone was used...'' w) of
        (Inl e, w1) \<Rightarrow> (Inl e, w1)
      | (Inr False, w1) \<Rightarrow> (Inr None, semi_verbose ''The phone was not used.'' w1)
      | (Inr True, w1) \<Rightarrow>
          (case get_player_from_event env players event_statement w1 of
             (Inl e, w2) \<Rightarrow> (Inl e, w2)
           | (Inr None, w2) \<Rightarrow> (Inr None, semi_verbose ''The phone was not used.'' w2)
           | (Inr (Some p), w2) \<Rightarrow>
               (Inr (Some p), semi_verbose (''Player using the phone: '' @ name p) w2)))"

text \<open>
  The loop \<^verbatim>\<open>for event in scene_output\<close> of \<^verbatim>\<open>_run_phone_scene\<close>: the
  player observes the event, then the event is added to the memory. Nothing in the
  loop catches an exception: a call that raises ends the loop, and what was observed
  and added before stays.
\<close>

fun merge ::
  "('x, 'sc) collaborators \<Rightarrow> player \<Rightarrow> event list \<Rightarrow> ('x, 'sc) world
     \<Rightarrow> (error + unit) \<times> ('x, 'sc) world" where
  "merge env p [] w = (Inr (), w)"
| "merge env p (e # es) w =
     (case observe env p e w of
        (Inl err, w1) \<Rightarrow> (Inl err, w1)
      | (Inr u, w1) \<Rightarrow>
          (case memory_add env e w1 of
             (Inl err, w2) \<Rightarrow> (Inl err, w2)
           | (Inr u', w2) \<Rightarrow> merge env p es w2))"

text \<open>
  \<^verbatim>\<open>_run_phone_scene\<close>. The arguments of \<^verbatim>\<open>scene.build\<close> are evaluated before
  the call, so a missing phone raises before anything is built. When the entry of the
  \<^verbatim>\<open>with\<close> block raises, neither the body nor the exit runs. Once entered, the
  exit runs whether \<^verbatim>\<open>run_episode\<close> returned or raised, and an exception goes on
  after it. The loop over the output stands after the block.
\<close>

definition run_phone_scene ::
  "('x, 'sc) collaborators \<Rightarrow> phone list \<Rightarrow> player \<Rightarrow> ('x, 'sc) world
     \<Rightarrow> (error + event list) \<times> ('x, 'sc) world" where
  "run_phone_scene env phones p w =
     (case get_phone phones (name p) of
        Inl e \<Rightarrow> (Inl e, w)
      | Inr ph \<Rightarrow>
          (case scene_build env p ph w of
             (Inl e, w1) \<Rightarrow> (Inl e, w1)
           | (Inr phone_scene, w1) \<Rightarrow>
               (case higher_gear_enter w1 of
                  (Inl e, w2) \<Rightarrow> (Inl e, w2)
                | (Inr entered, w2) \<Rightarrow>
                    (case scene_run_episode env phone_scene w2 of
                       (Inl e, w3) \<Rightarrow> (Inl e, higher_gear_exit w3)
                     | (Inr scene_output, w3) \<Rightarrow>
                         (case merge env p scene_output (higher_gear_exit w3) of
                            (Inl e, w4) \<Rightarrow> (Inl e, w4)
                          | (Inr merged, w4) \<Rightarrow> (Inr scene_output, w4))))))"

text \<open>\<^verbatim>\<open>update_after_event\<close>\<close>

definition update_after_event ::
  "('x, 'sc) collaborators \<Rightarrow> player list \<Rightarrow> phone list \<Rightarrow> string \<Rightarrow> ('x, 'sc) world
     \<Rightarrow> (error + unit) \<times> ('x, 'sc) world" where
  "update_after_event env players phones event_statement w =
     (case get_player_using_phone env players event_statement w of
        (Inl e, w1) \<Rightarrow> (Inl e, w1)
      | (Inr None, w1) \<Rightarrow> (Inr (), w1)
      | (Inr (Some p), w1) \<Rightarrow>
          (case run_phone_scene env phones p w1 of
             (Inl e, w2) \<Rightarrow> (Inl e, w2)
           | (Inr scene_output, w2) \<Rightarrow> (Inr (), w2)))"

text \<open>\<^verbatim>\<open>partial_state\<close>\<close>

definition partial_state ::
  "phone list \<Rightarrow> string \<Rightarrow> ('x, 'sc) world \<Rightarrow> (error + string) \<times> ('x, 'sc) world" where
  "partial_state phones n w =
     (case get_phone phones n of
        Inl e \<Rightarrow> (Inl e, w)
      | Inr ph \<Rightarrow> (Inr (description ph), w))"

subsection \<open>Reading the record of calls\<close>

text \<open>The calls made between two worlds, the second reached from the first.\<close>

definition new_calls :: "('x, 'sc) world \<Rightarrow> ('x, 'sc) world \<Rightarrow> (gear \<times> 'sc call) list" where
  "new_calls w w' = drop (length (calls w)) (calls w')"

fun is_merge_call :: "'sc call \<Rightarrow> bool" where
  "is_merge_call (Observe i e) = True"
| "is_merge_call (MemoryAdd e) = True"
| "is_merge_call c = False"

text \<open>Calls that ask or tell something and change nothing.\<close>

fun is_query :: "'sc call \<Rightarrow> bool" where
  "is_query (SemiVerbose m) = True"
| "is_query (YesNoQuestion ctx q a) = True"
| "is_query c = False"

text \<open>The per-player questions put for the players \<open>ps\<close>, all answered \<open>b\<close>.\<close>

definition asked :: "gear \<Rightarrow> string \<Rightarrow> bool \<Rightarrow> player list \<Rightarrow> (gear \<times> 'sc call) list" where
  "asked g ctx b ps =
     map (\<lambda>p. (g, YesNoQuestion ctx (PlayerUsingPhoneQuestion (name p)) (Inr b))) ps"

text \<open>What the first episode that ran to completion returned, if one did.\<close>

fun episode_output :: "(gear \<times> 'sc call) list \<Rightarrow> event list option" where
  "episode_output [] = None"
| "episode_output ((g, RunEpisode sc (Inr es)) # cs) = Some es"
| "episode_output (c # cs) = episode_output cs"

text \<open>The calls of the merge loop on the events \<open>es\<close>, made in gear \<open>g\<close>.\<close>

definition merge_calls :: "gear \<Rightarrow> player \<Rightarrow> event list \<Rightarrow> (gear \<times> 'sc call) list" where
  "merge_calls g p es = concat (map (\<lambda>e. [(g, Observe (ident p) e), (g, MemoryAdd e)]) es)"

subsection \<open>Sample players, phones and collaborators\<close>

text \<open>
  Three players, phones for two of them, and collaborators that answer by a fixed
  judgement, build a scene from the player and the phone, end the episode with a
  fixed outcome, and let every \<open>observe\<close> and every \<open>add\<close> return; each call moves
  the external state on by one.
\<close>

definition alice :: player where "alice = \<lparr>ident = 0, name = ''Alice''\<rparr>"
definition bob :: player where "bob = \<lparr>ident = 1, name = ''Bob''\<rparr>"
definition carol :: player where "carol = \<lparr>ident = 2, name = ''Carol''\<rparr>"

definition roster :: "player list" where "roster = [alice, bob, carol]"

definition alice_phone :: phone where
  "alice_phone = \<lparr>player_name = ''Alice'', description = ''Alice has the apps Calendar, Mastodon''\<rparr>"
definition bob_phone :: phone where
  "bob_phone = \<lparr>player_name = ''Bob'', description = ''Bob has the app Mastodon''\<rparr>"

definition registry :: "phone list" where "registry = [alice_phone, bob_phone]"

definition sample_collaborators ::
  "(question \<Rightarrow> bool) \<Rightarrow> error + event list \<Rightarrow> (nat, player \<times> phone) collaborators" where
  "sample_collaborators judge outcome =
     \<lparr>yes_no_question = (\<lambda>ctx q x. (Inr (judge q), Suc x)),
      build = (\<lambda>p ph x. (Inr (p, ph), Suc x)),
      run_episode = (\<lambda>sc x. (outcome, Suc x)),
      observe_outcome = (\<lambda>p e x. (Inr (), Suc x)),
      add_outcome = (\<lambda>e x. (Inr (), Suc x))\<rparr>"

definition alice_and_bob :: "question \<Rightarrow> bool" where
  "alice_and_bob q = (q = PhoneEventQuestion \<or> q = PlayerUsingPhoneQuestion ''Alice''
     \<or> q = PlayerUsingPhoneQuestion ''Bob'')"

definition start :: "(nat, player \<times> phone) world" where
  "start = \<lparr>ext = 0, gear = Normal, logs = (\<lambda>_. []), memory = [], calls = []\<rparr>"

definition coffee :: string where
  "coffee = ''Alice checked her notifications while waiting for coffee''"

text \<open>
  Judgements, statements and runs of the component on them: an episode that fails, one
  that returns two events, a statement that is no phone event, one that is a phone
  event of nobody on the roster, an empty roster, and the resolver alone.
\<close>

definition no_phone :: "question \<Rightarrow> bool" where
  "no_phone q = False"

definition phone_but_nobody :: "question \<Rightarrow> bool" where
  "phone_but_nobody q = (q = PhoneEventQuestion)"

definition garden :: string where
  "garden = ''Bob watered the garden''"

definition dave :: string where
  "dave = ''Carol told Dave to check his phone''"

definition app_events :: "event list" where
  "app_events = [''Alice opens her messaging app'', ''Alice reads two new messages'']"

definition failing_run :: "(error + unit) \<times> (nat, player \<times> phone) world" where
  "failing_run =
     update_after_event
       (sample_collaborators alice_and_bob (Inl (CollaboratorFailure ''episode failed'')))
       roster registry coffee start"

definition coffee_run :: "(error + unit) \<times> (nat, player \<times> phone) world" where
  "coffee_run =
     update_after_event (sample_collaborators alice_and_bob (Inr app_events))
       roster registry coffee start"

definition garden_run :: "(error + unit) \<times> (nat, player \<times> phone) world" where
  "garden_run =
     update_after_event (sample_collaborators no_phone (Inr app_events))
       roster registry garden start"

definition dave_run :: "(error + unit) \<times> (nat, player \<times> phone) world" where
  "dave_run =
     update_after_event (sample_collaborators phone_but_nobody (Inr app_events))
       roster registry dave start"

definition empty_roster_run :: "(error + unit) \<times> (nat, player \<times> phone) world" where
  "empty_roster_run =
     update_after_event (sample_collaborators alice_and_bob (Inr app_events))
       [] registry coffee start"

text \<open>A memory whose \<open>add\<close> raises on the second of the two events.\<close>

definition failing_add :: "(nat, player \<times> phone) collaborators" where
  "failing_add =
     (sample_collaborators alice_and_bob (Inr app_events))
       \<lparr>add_outcome := (\<lambda>e x.
          if e = ''Alice reads two new messages''
          then (Inl (CollaboratorFailure ''add failed''), Suc x) else (Inr (), Suc x))\<rparr>"

definition partial_run :: "(error + unit) \<times> (nat, player \<times> phone) world" where
  "partial_run = update_after_event failing_add roster registry coffee start"

text \<open>The coffee statement handled while the accelerated gear is held.\<close>

definition accelerated_run :: "(error + unit) \<times> (nat, player \<times> phone) world" where
  "accelerated_run =
     update_after_event (sample_collaborators alice_and_bob (Inr app_events))
       roster registry coffee (start\<lparr>gear := Accelerated\<rparr>)"

definition resolver_run :: "(error + player option) \<times> (nat, player \<times> phone) world" where
  "resolver_run =
     get_player_from_event (sample_collaborators alice_and_bob (Inr app_events))
       roster coffee start"

section \<open>Effects of the single operations\<close>

lemma emit_fields [simp]:
  "ext (emit c w) = ext w" "gear (emit c w) = gear w" "logs (emit c w) = logs w"
  "memory (emit c w) = memory w" "calls (emit c w) = calls w @ [(gear w, c)]"
  by (simp_all add: emit_def)

lemma semi_verbose_fields [simp]:
  "ext (semi_verbose m w) = ext w" "gear (semi_verbose m w) = gear w"
  "logs (semi_verbose m w) = logs w" "memory (semi_verbose m w) = memory w"
  "calls (semi_verbose m w) = calls w @ [(gear w, SemiVerbose m)]"
  by (simp_all add: semi_verbose_def)

lemma higher_gear_enter_fields:
  assumes "higher_gear_enter w = (r, w')"
  shows "logs w' = logs w" "memory w' = memory w"
    "calls w' = calls w @ [(gear w, HigherGearEnter)]"
    "gear w' = Accelerated"
    "case r of Inl e \<Rightarrow> gear w = Accelerated | Inr u \<Rightarrow> gear w = Normal"
  using assms by (cases "gear w"; auto simp: higher_gear_enter_def split: if_splits)+

lemma higher_gear_exit_fields [simp]:
  "ext (higher_gear_exit w) = ext w" "gear (higher_gear_exit w) = Normal"
  "logs (higher_gear_exit w) = logs w" "memory (higher_gear_exit w) = memory w"
  "calls (higher_gear_exit w) = calls w @ [(gear w, HigherGearExit)]"
  by (simp_all add: higher_gear_exit_def)

lemma observe_fields:
  assumes "observe env p e w = (r, w')"
  shows "gear w' = gear w" "memory w' = memory w"
    "calls w' = calls w @ [(gear w, Observe (ident p) e)]"
    "r = fst (observe_outcome env p e (ext w))"
    "logs w' = (case r of Inl err \<Rightarrow> logs w
                | Inr u \<Rightarrow> (logs w)(ident p := logs w (ident p) @ [e]))"
  using assms by (auto simp: observe_def split: prod.splits sum.splits)

lemma memory_add_fields:
  assumes "memory_add env e w = (r, w')"
  shows "gear w' = gear w" "logs w' = logs w"
    "calls w' = calls w @ [(gear w, MemoryAdd e)]"
    "r = fst (add_outcome env e (ext w))"
    "memory w' = (case r of Inl err \<Rightarrow> memory w | Inr u \<Rightarrow> memory w @ [e])"
  using assms by (auto simp: memory_add_def split: prod.splits sum.splits)

lemma ask_fields:
  assumes "ask env ctx q w = (r, w')"
  shows "gear w' = gear w" "logs w' = logs w" "memory w' = memory w"
    "calls w' = calls w @ [(gear w, YesNoQuestion ctx q r)]"
    "r = fst (yes_no_question env ctx q (ext w))"
    "ext w' = snd (yes_no_question env ctx q (ext w))"
  using assms by (auto simp: ask_def split: prod.splits)

lemma scene_build_fields:
  assumes "scene_build env p ph w = (r, w')"
  shows "gear w' = gear w" "logs w' = logs w" "memory w' = memory w"
    "calls w' = calls w @ [(gear w, SceneBuild p ph r)]"
  using assms by (auto simp: scene_build_def split: prod.splits)

lemma scene_run_episode_fields:
  assumes "scene_run_episode env sc w = (r, w')"
  shows "gear w' = gear w" "logs w' = logs w" "memory w' = memory w"
    "calls w' = calls w @ [(gear w, RunEpisode sc r)]"
  using assms by (auto simp: scene_run_episode_def split: prod.splits)


lemma length_merge_calls [simp]: "length (merge_calls g p es) = 2 * length es"
  by (induction es) (simp_all add: merge_calls_def)

lemma merge_gear: "merge env p es w = (r, w') \<Longrightarrow> gear w' = gear w"
proof (induction es arbitrary: w)
  case Nil
  then show ?case by simp
next
  case (Cons e es)
  obtain a w1 where a: "observe env p e w = (a, w1)" by (cases "observe env p e w")
  obtain b w2 where b: "memory_add env e w1 = (b, w2)" by (cases "memory_add env e w1")
  note f = observe_fields(1)[OF a] and g = memory_add_fields(1)[OF b]
  show ?case
  proof (cases a)
    case (Inl err)
    with Cons.prems a f show ?thesis by simp
  next
    case oa: (Inr u)
    show ?thesis
    proof (cases b)
      case (Inl err)
      with Cons.prems a b oa f g show ?thesis by simp
    next
      case (Inr u')
      with Cons.prems a b oa have "merge env p es w2 = (r, w')" by simp
      from Cons.IH[OF this] f g show ?thesis by simp
    qed
  qed
qed

lemma merge_prefix:
  "merge env p es w = (r, w') \<Longrightarrow>
     \<exists>n j k. calls w' = calls w @ take n (merge_calls (gear w) p es) \<and>
       logs w' = (logs w)(ident p := logs w (ident p) @ take j es) \<and>
       memory w' = memory w @ take k es \<and> k \<le> j \<and> j \<le> Suc k \<and>
       (\<forall>u. r = Inr u \<longrightarrow> 2 * length es \<le> n \<and> length es \<le> k)"
proof (induction es arbitrary: w)
  case Nil
  then have "calls w' = calls w @ take 0 (merge_calls (gear w) p []) \<and>
       logs w' = (logs w)(ident p := logs w (ident p) @ take 0 []) \<and>
       memory w' = memory w @ take 0 [] \<and> (0::nat) \<le> 0 \<and> (0::nat) \<le> Suc 0 \<and>
       (\<forall>u. r = Inr u \<longrightarrow> 2 * length ([]::event list) \<le> 0 \<and> length ([]::event list) \<le> 0)"
    by (simp add: merge_calls_def)
  then show ?case by blast
next
  case (Cons e es)
  obtain a w1 where a: "observe env p e w = (a, w1)" by (cases "observe env p e w")
  obtain b w2 where b: "memory_add env e w1 = (b, w2)" by (cases "memory_add env e w1")
  note f = observe_fields(1,2,3,5)[OF a] and g = memory_add_fields(1,2,3,5)[OF b]
  show ?case
  proof (cases a)
    case (Inl err)
    with Cons.prems a have "r = Inl err" "w' = w1" by simp_all
    with f Inl have "calls w' = calls w @ take 1 (merge_calls (gear w) p (e # es)) \<and>
       logs w' = (logs w)(ident p := logs w (ident p) @ take 0 (e # es)) \<and>
       memory w' = memory w @ take 0 (e # es) \<and> (0::nat) \<le> 0 \<and> (0::nat) \<le> Suc 0 \<and>
       (\<forall>u. r = Inr u \<longrightarrow> 2 * length (e # es) \<le> 1 \<and> length (e # es) \<le> 0)"
      by (simp add: merge_calls_def)
    then show ?thesis by blast
  next
    case oa: (Inr u)
    show ?thesis
    proof (cases b)
      case (Inl err)
      with Cons.prems a b oa have "r = Inl err" "w' = w2" by simp_all
      with f g oa Inl have "calls w' = calls w @ take 2 (merge_calls (gear w) p (e # es)) \<and>
         logs w' = (logs w)(ident p := logs w (ident p) @ take 1 (e # es)) \<and>
         memory w' = memory w @ take 0 (e # es) \<and> (0::nat) \<le> 1 \<and> (1::nat) \<le> Suc 0 \<and>
         (\<forall>u. r = Inr u \<longrightarrow> 2 * length (e # es) \<le> 2 \<and> length (e # es) \<le> 0)"
        by (simp add: merge_calls_def)
      then show ?thesis by blast
    next
      case ob: (Inr u')
      with Cons.prems a b oa have "merge env p es w2 = (r, w')" by simp
      from Cons.IH[OF this] obtain n j k where
        ih: "calls w' = calls w2 @ take n (merge_calls (gear w2) p es)"
          "logs w' = (logs w2)(ident p := logs w2 (ident p) @ take j es)"
          "memory w' = memory w2 @ take k es" "k \<le> j" "j \<le> Suc k"
          "\<forall>u. r = Inr u \<longrightarrow> 2 * length es \<le> n \<and> length es \<le> k"
        by blast
      with f g oa ob have "calls w' = calls w @ take (Suc (Suc n)) (merge_calls (gear w) p (e # es)) \<and>
         logs w' = (logs w)(ident p := logs w (ident p) @ take (Suc j) (e # es)) \<and>
         memory w' = memory w @ take (Suc k) (e # es) \<and> Suc k \<le> Suc j \<and> Suc j \<le> Suc (Suc k) \<and>
         (\<forall>u. r = Inr u \<longrightarrow> 2 * length (e # es) \<le> Suc (Suc n)
              \<and> length (e # es) \<le> Suc k)"
        by (simp add: merge_calls_def)
      then show ?thesis by blast
    qed
  qed
qed



section \<open>The loop over the players\<close>

lemma new_calls_append [simp]: "calls w' = calls w @ cs \<Longrightarrow> new_calls w w' = cs"
  by (simp add: new_calls_def)

lemma players_loop_frame:
  "players_loop env ctx ps w = (r, w') \<Longrightarrow>
     gear w' = gear w \<and> logs w' = logs w \<and> memory w' = memory w"
proof (induction ps arbitrary: w)
  case Nil
  then show ?case by simp
next
  case (Cons p ps)
  obtain a w1 where a: "ask env ctx (PlayerUsingPhoneQuestion (name p)) w = (a, w1)"
    by (cases "ask env ctx (PlayerUsingPhoneQuestion (name p)) w")
  note f = ask_fields(1-3)[OF a]
  show ?case
  proof (cases a)
    case (Inl e)
    with Cons.prems a f show ?thesis by simp
  next
    case (Inr b)
    show ?thesis
    proof (cases b)
      case True
      with Cons.prems a f Inr show ?thesis by simp
    next
      case False
      with Cons.prems a Inr have "players_loop env ctx ps w1 = (r, w')" by simp
      from Cons.IH[OF this] f show ?thesis by simp
    qed
  qed
qed

lemma players_loop_calls:
  "players_loop env ctx ps w = (r, w') \<Longrightarrow>
     (case r of
        Inr (Some p) \<Rightarrow>
          \<exists>pre post. ps = pre @ p # post \<and>
            calls w' = calls w @ asked (gear w) ctx False pre @ asked (gear w) ctx True [p]
      | Inr None \<Rightarrow> calls w' = calls w @ asked (gear w) ctx False ps
      | Inl e \<Rightarrow>
          \<exists>pre q post. ps = pre @ q # post \<and>
            calls w' = calls w @ asked (gear w) ctx False pre
              @ [(gear w, YesNoQuestion ctx (PlayerUsingPhoneQuestion (name q)) (Inl e))])"
proof (induction ps arbitrary: w)
  case Nil
  then show ?case by (auto simp: asked_def)
next
  case (Cons p ps)
  obtain a w1 where a: "ask env ctx (PlayerUsingPhoneQuestion (name p)) w = (a, w1)"
    by (cases "ask env ctx (PlayerUsingPhoneQuestion (name p)) w")
  note f = ask_fields(1,4)[OF a]
  show ?case
  proof (cases a)
    case (Inl e)
    with Cons.prems a have "r = Inl e" "w' = w1" by simp_all
    with f Inl have "p # ps = [] @ p # ps \<and>
        calls w' = calls w @ asked (gear w) ctx False []
          @ [(gear w, YesNoQuestion ctx (PlayerUsingPhoneQuestion (name p)) (Inl e))]"
      by (simp add: asked_def)
    with \<open>r = Inl e\<close> show ?thesis by (simp only: sum.case) blast
  next
    case (Inr b)
    show ?thesis
    proof (cases b)
      case True
      with Cons.prems a Inr have "r = Inr (Some p)" "w' = w1" by simp_all
      with f Inr True have "p # ps = [] @ p # ps \<and>
          calls w' = calls w @ asked (gear w) ctx False [] @ asked (gear w) ctx True [p]"
        by (simp add: asked_def)
      with \<open>r = Inr (Some p)\<close> show ?thesis by (simp only: sum.case option.case) blast
    next
      case False
      with Cons.prems a Inr have l: "players_loop env ctx ps w1 = (r, w')" by simp
      have c1: "calls w1 = calls w @ asked (gear w) ctx False [p]"
        using f Inr False by (simp add: asked_def)
      have g1: "gear w1 = gear w" using f by simp
      note ih = Cons.IH[OF l, unfolded c1 g1]
      show ?thesis
      proof (cases r)
        case (Inl e)
        with ih obtain pre q post where "ps = pre @ q # post"
          "calls w' = (calls w @ asked (gear w) ctx False [p]) @ asked (gear w) ctx False pre
              @ [(gear w, YesNoQuestion ctx (PlayerUsingPhoneQuestion (name q)) (Inl e))]"
          by auto
        then have "p # ps = (p # pre) @ q # post \<and>
          calls w' = calls w @ asked (gear w) ctx False (p # pre)
              @ [(gear w, YesNoQuestion ctx (PlayerUsingPhoneQuestion (name q)) (Inl e))]"
          by (simp add: asked_def)
        with Inl show ?thesis by (simp only: sum.case) blast
      next
        case (Inr found)
        show ?thesis
        proof (cases found)
          case None
          with ih Inr show ?thesis by (simp add: asked_def)
        next
          case (Some q)
          with ih Inr obtain pre post where "ps = pre @ q # post"
            "calls w' = (calls w @ asked (gear w) ctx False [p]) @ asked (gear w) ctx False pre
               @ asked (gear w) ctx True [q]"
            by auto
          then have "p # ps = (p # pre) @ q # post \<and>
            calls w' = calls w @ asked (gear w) ctx False (p # pre) @ asked (gear w) ctx True [q]"
            by (simp add: asked_def)
          with Inr Some show ?thesis by (simp only: sum.case option.case) blast
        qed
      qed
    qed
  qed
qed

lemma players_loop_queries:
  "players_loop env ctx ps w = (r, w') \<Longrightarrow>
     \<exists>cs. calls w' = calls w @ cs \<and> list_all (\<lambda>c. fst c = gear w \<and> is_query (snd c)) cs"
  by (drule players_loop_calls)
     (auto simp: asked_def list_all_iff split: sum.splits option.splits)

lemma players_loop_member:
  "players_loop env ctx ps w = (Inr (Some p), w') \<Longrightarrow> p \<in> set ps"
  by (drule players_loop_calls) auto

lemma players_loop_ext:
  "ext w = ext v \<Longrightarrow>
     fst (players_loop env ctx ps w) = fst (players_loop env ctx ps v) \<and>
     ext (snd (players_loop env ctx ps w)) = ext (snd (players_loop env ctx ps v))"
proof (induction ps arbitrary: w v)
  case Nil
  then show ?case by simp
next
  case (Cons p ps)
  obtain a w1 where a: "ask env ctx (PlayerUsingPhoneQuestion (name p)) w = (a, w1)"
    by (cases "ask env ctx (PlayerUsingPhoneQuestion (name p)) w")
  obtain b v1 where b: "ask env ctx (PlayerUsingPhoneQuestion (name p)) v = (b, v1)"
    by (cases "ask env ctx (PlayerUsingPhoneQuestion (name p)) v")
  from ask_fields(5,6)[OF a] ask_fields(5,6)[OF b] Cons.prems
  have e: "a = b" "ext w1 = ext v1" by simp_all
  from Cons.IH[OF e(2)] a b e show ?case
    by (simp split: sum.splits)
qed

lemma players_loop_find:
  "\<forall>p\<in>set ps. \<forall>x. fst (yes_no_question env ctx (PlayerUsingPhoneQuestion (name p)) x)
       = Inr (judge (name p)) \<Longrightarrow>
   fst (players_loop env ctx ps w) = Inr (find (\<lambda>p. judge (name p)) ps)"
proof (induction ps arbitrary: w)
  case Nil
  then show ?case by simp
next
  case (Cons p ps)
  obtain a w1 where a: "ask env ctx (PlayerUsingPhoneQuestion (name p)) w = (a, w1)"
    by (cases "ask env ctx (PlayerUsingPhoneQuestion (name p)) w")
  from ask_fields(5)[OF a] Cons.prems have "a = Inr (judge (name p))" by simp
  moreover from Cons have "fst (players_loop env ctx ps w1) = Inr (find (\<lambda>p. judge (name p)) ps)"
    by simp
  ultimately show ?case using a by simp
qed

section \<open>The component as a whole\<close>

lemma get_phone_Inl: "get_phone phones n = Inl e \<Longrightarrow> e = StopIteration"
  by (induction phones) (auto split: if_splits)

lemma get_phone_Inl_iff:
  "(get_phone phones n = Inl StopIteration) = (\<forall>ph\<in>set phones. player_name ph \<noteq> n)"
  by (induction phones) auto

lemma get_phone_Inr: "get_phone phones n = Inr ph \<Longrightarrow> ph \<in> set phones \<and> player_name ph = n"
  by (induction phones) (auto split: if_splits)

lemma get_phone_find:
  "get_phone phones n =
     (case find (\<lambda>ph. player_name ph = n) phones of
        None \<Rightarrow> Inl StopIteration | Some ph \<Rightarrow> Inr ph)"
  by (induction phones) auto

lemma is_phone_event_ext:
  "ext w = ext v \<Longrightarrow>
     fst (is_phone_event env s w) = fst (is_phone_event env s v) \<and>
     ext (snd (is_phone_event env s w)) = ext (snd (is_phone_event env s v))"
  by (simp add: is_phone_event_def ask_def split: prod.splits)

lemma get_player_using_phone_frame:
  assumes "get_player_using_phone env ps s w = (r, w')"
  shows "gear w' = gear w \<and> logs w' = logs w \<and> memory w' = memory w \<and>
     (\<exists>cs. calls w' = calls w @ cs \<and> list_all (\<lambda>c. fst c = gear w \<and> is_query (snd c)) cs) \<and>
     (\<forall>p. r = Inr (Some p) \<longrightarrow> p \<in> set ps)"
proof -
  let ?w0 = "semi_verbose ''Checking if the phone was used...'' w"
  obtain a w1 where a: "ask env (''Event: '' @ s) PhoneEventQuestion ?w0 = (a, w1)"
    by (cases "ask env (''Event: '' @ s) PhoneEventQuestion ?w0")
  note f = ask_fields(1-4)[OF a]
  show ?thesis
  proof (cases "a = Inr True")
    case False
    with assms a f show ?thesis
      by (cases a) (auto simp: get_player_using_phone_def is_phone_event_def)
  next
    case True
    obtain b w2 where b: "players_loop env (player_context s) ps w1 = (b, w2)"
      by (cases "players_loop env (player_context s) ps w1")
    from players_loop_queries[OF b] obtain qs where
      qs: "calls w2 = calls w1 @ qs" "list_all (\<lambda>c. fst c = gear w1 \<and> is_query (snd c)) qs"
      by blast
    note g = players_loop_frame[OF b]
    have m: "\<And>p. b = Inr (Some p) \<Longrightarrow> p \<in> set ps"
      using b players_loop_member by blast
    from assms a b True f g qs m show ?thesis
      by (cases b)
         (auto simp: get_player_using_phone_def is_phone_event_def get_player_from_event_def
               split: option.splits)
  qed
qed

lemma run_phone_scene_cases:
  assumes "run_phone_scene env phones p w = (r, w')"
  shows
   "(r = Inl StopIteration \<and> get_phone phones (name p) = Inl StopIteration \<and> w' = w) \<or>
    (\<exists>ph e. get_phone phones (name p) = Inr ph \<and> r = Inl e \<and>
       gear w' = gear w \<and> logs w' = logs w \<and> memory w' = memory w \<and>
       calls w' = calls w @ [(gear w, SceneBuild p ph (Inl e))]) \<or>
    (\<exists>ph sc e. get_phone phones (name p) = Inr ph \<and> r = Inl e \<and>
       gear w = Accelerated \<and> gear w' = gear w \<and> logs w' = logs w \<and> memory w' = memory w \<and>
       calls w' = calls w @ [(gear w, SceneBuild p ph (Inr sc)), (gear w, HigherGearEnter)]) \<or>
    (\<exists>ph sc e. get_phone phones (name p) = Inr ph \<and> r = Inl e \<and>
       gear w = Normal \<and> gear w' = Normal \<and> logs w' = logs w \<and> memory w' = memory w \<and>
       calls w' = calls w @ [(gear w, SceneBuild p ph (Inr sc)), (gear w, HigherGearEnter),
          (Accelerated, RunEpisode sc (Inl e)), (Accelerated, HigherGearExit)]) \<or>
    (\<exists>ph sc es rm n j k. get_phone phones (name p) = Inr ph \<and>
       r = (case rm of Inl e \<Rightarrow> Inl e | Inr (u::unit) \<Rightarrow> Inr es) \<and>
       gear w = Normal \<and> gear w' = Normal \<and>
       calls w' = calls w @ [(gear w, SceneBuild p ph (Inr sc)), (gear w, HigherGearEnter),
          (Accelerated, RunEpisode sc (Inr es)), (Accelerated, HigherGearExit)]
          @ take n (merge_calls Normal p es) \<and>
       logs w' = (logs w)(ident p := logs w (ident p) @ take j es) \<and>
       memory w' = memory w @ take k es \<and> k \<le> j \<and> j \<le> Suc k \<and>
       (\<forall>u. rm = Inr u \<longrightarrow> 2 * length es \<le> n \<and> length es \<le> k))"
proof (cases "get_phone phones (name p)")
  case (Inl e)
  with assms get_phone_Inl[OF Inl] show ?thesis
    by (simp add: run_phone_scene_def)
next
  case (Inr ph)
  obtain b w1 where b: "scene_build env p ph w = (b, w1)"
    by (cases "scene_build env p ph w")
  note f = scene_build_fields[OF b]
  show ?thesis
  proof (cases b)
    case (Inl e)
    with assms Inr b f show ?thesis
      by (simp add: run_phone_scene_def)
  next
    case sc: (Inr sc)
    obtain h w2 where h: "higher_gear_enter w1 = (h, w2)"
      by (cases "higher_gear_enter w1")
    note fh = higher_gear_enter_fields[OF h]
    show ?thesis
    proof (cases h)
      case (Inl e)
      with assms Inr b sc h have "r = Inl e" "w' = w2"
        by (simp_all add: run_phone_scene_def)
      moreover from fh(5) Inl have "gear w1 = Accelerated" by simp
      ultimately have "get_phone phones (name p) = Inr ph \<and> r = Inl e \<and>
         gear w = Accelerated \<and> gear w' = gear w \<and> logs w' = logs w \<and> memory w' = memory w \<and>
         calls w' = calls w @ [(gear w, SceneBuild p ph (Inr sc)), (gear w, HigherGearEnter)]"
        using Inr f fh sc by simp
      then show ?thesis by blast
    next
      case entered: (Inr u)
      from fh(5) entered have g1: "gear w1 = Normal" by simp
      obtain c w3 where c: "scene_run_episode env sc w2 = (c, w3)"
        by (cases "scene_run_episode env sc w2")
      note g = scene_run_episode_fields[OF c]
      show ?thesis
      proof (cases c)
        case (Inl e)
        with assms Inr b sc h entered c have "r = Inl e" "w' = higher_gear_exit w3"
          by (simp_all add: run_phone_scene_def)
        with Inr f fh g g1 Inl have "get_phone phones (name p) = Inr ph \<and> r = Inl e \<and>
           gear w = Normal \<and> gear w' = Normal \<and> logs w' = logs w \<and> memory w' = memory w \<and>
           calls w' = calls w @ [(gear w, SceneBuild p ph (Inr sc)), (gear w, HigherGearEnter),
             (Accelerated, RunEpisode sc (Inl e)), (Accelerated, HigherGearExit)]"
          using sc by simp
        then show ?thesis by blast
      next
        case es: (Inr es)
        obtain rm w4 where m: "merge env p es (higher_gear_exit w3) = (rm, w4)"
          by (cases "merge env p es (higher_gear_exit w3)")
        from assms Inr b sc h entered c es m
        have r: "r = (case rm of Inl e \<Rightarrow> Inl e | Inr u \<Rightarrow> Inr es)" and w': "w' = w4"
          by (simp_all add: run_phone_scene_def split: sum.splits)
        from merge_prefix[OF m] obtain n j k where
          mp: "calls w4 = calls (higher_gear_exit w3)
                 @ take n (merge_calls (gear (higher_gear_exit w3)) p es)"
            "logs w4 = (logs (higher_gear_exit w3))
                 (ident p := logs (higher_gear_exit w3) (ident p) @ take j es)"
            "memory w4 = memory (higher_gear_exit w3) @ take k es" "k \<le> j" "j \<le> Suc k"
            "\<forall>u. rm = Inr u \<longrightarrow> 2 * length es \<le> n \<and> length es \<le> k"
          by blast
        from mp(1-3) merge_gear[OF m] w' Inr f fh g g1 es sc
        have "gear w = Normal \<and> gear w' = Normal \<and>
          calls w' = calls w @ [(gear w, SceneBuild p ph (Inr sc)), (gear w, HigherGearEnter),
             (Accelerated, RunEpisode sc (Inr es)), (Accelerated, HigherGearExit)]
             @ take n (merge_calls Normal p es) \<and>
          logs w' = (logs w)(ident p := logs w (ident p) @ take j es) \<and>
          memory w' = memory w @ take k es"
          by simp
        with Inr r mp(4-6) show ?thesis by blast
      qed
    qed
  qed
qed

lemma update_after_event_cases:
  assumes "update_after_event env ps phones s w = (r, w')"
  shows "\<exists>r1 w1 qs. get_player_using_phone env ps s w = (r1, w1) \<and>
     calls w1 = calls w @ qs \<and> list_all (\<lambda>c. fst c = gear w \<and> is_query (snd c)) qs \<and>
     gear w1 = gear w \<and> logs w1 = logs w \<and> memory w1 = memory w \<and>
     ((\<exists>e. r1 = Inl e \<and> r = Inl e \<and> w' = w1) \<or>
      (r1 = Inr None \<and> r = Inr () \<and> w' = w1) \<or>
      (\<exists>p rr. r1 = Inr (Some p) \<and> p \<in> set ps \<and>
         run_phone_scene env phones p w1 = (rr, w') \<and> r = map_sum id (\<lambda>_. ()) rr))"
proof -
  obtain r1 w1 where a: "get_player_using_phone env ps s w = (r1, w1)"
    by (cases "get_player_using_phone env ps s w")
  from get_player_using_phone_frame[OF a] obtain qs where
    f: "gear w1 = gear w" "logs w1 = logs w" "memory w1 = memory w"
       "calls w1 = calls w @ qs" "list_all (\<lambda>c. fst c = gear w \<and> is_query (snd c)) qs"
       "\<And>p. r1 = Inr (Some p) \<Longrightarrow> p \<in> set ps"
    by blast
  from assms a have
    "(\<exists>e. r1 = Inl e \<and> r = Inl e \<and> w' = w1) \<or>
      (r1 = Inr None \<and> r = Inr () \<and> w' = w1) \<or>
      (\<exists>p rr. r1 = Inr (Some p) \<and>
         run_phone_scene env phones p w1 = (rr, w') \<and> r = map_sum id (\<lambda>_. ()) rr)"
    by (auto simp: update_after_event_def split: sum.splits option.splits prod.splits)
  with a f show ?thesis by blast
qed

section \<open>Reading properties off the record of calls\<close>


lemma episode_output_merge_calls [simp]: "episode_output (merge_calls g p es) = None"
  by (induction es) (simp_all add: merge_calls_def)

lemma filter_merge_queries:
  "list_all (\<lambda>c. P c \<and> is_query (snd c)) qs \<Longrightarrow> filter (\<lambda>c. is_merge_call (snd c)) qs = []"
proof (induction qs)
  case Nil
  then show ?case by simp
next
  case (Cons q qs)
  obtain g c where q: "q = (g, c)" by (cases q)
  with Cons show ?case by (cases c) simp_all
qed

lemma filter_merge_merge_calls [simp]:
  "filter (\<lambda>c. is_merge_call (snd c)) (merge_calls g p es) = merge_calls g p es"
  by (induction es) (simp_all add: merge_calls_def)

lemma takeWhile_queries:
  "list_all (\<lambda>c. P c \<and> is_query (snd c)) qs \<Longrightarrow>
     takeWhile (\<lambda>c. snd c \<noteq> HigherGearExit) (qs @ cs)
       = qs @ takeWhile (\<lambda>c. snd c \<noteq> HigherGearExit) cs"
proof (induction qs)
  case Nil
  then show ?case by simp
next
  case (Cons q qs)
  obtain g c where q: "q = (g, c)" by (cases q)
  with Cons show ?case by (cases c) simp_all
qed

lemma merge_calls_gear: "c \<in> set (merge_calls g p es) \<Longrightarrow> fst c = g"
  by (auto simp: merge_calls_def)

lemma take_merge_calls:
  "c \<in> set (take n (merge_calls g p es)) \<Longrightarrow> fst c = g \<and> is_merge_call (snd c)"
  by (drule in_set_takeD) (auto simp: merge_calls_def)

lemma episode_output_none:
  "\<forall>c\<in>set cs. is_merge_call (snd c) \<Longrightarrow> episode_output cs = None"
proof (induction cs)
  case Nil
  then show ?case by simp
next
  case (Cons q cs)
  obtain g c where q: "q = (g, c)" by (cases q)
  with Cons show ?case by (cases c) simp_all
qed

lemma episode_output_take_merge_calls [simp]:
  "episode_output (take n (merge_calls g p es)) = None"
  by (rule episode_output_none) (simp add: take_merge_calls)

lemma filter_merge_take_merge_calls [simp]:
  "filter (\<lambda>c. is_merge_call (snd c)) (take n (merge_calls g p es))
     = take n (merge_calls g p es)"
  by (simp add: filter_id_conv take_merge_calls)

lemma queries_not_merge:
  "list_all (\<lambda>c. P c \<and> is_query (snd c)) qs \<Longrightarrow> c \<in> set qs \<Longrightarrow> \<not> is_merge_call (snd c)"
  by (cases c; cases "snd c") (auto simp: list_all_iff)

lemma takeWhile_exit_queries:
  "list_all (\<lambda>c. P c \<and> is_query (snd c)) qs \<Longrightarrow>
     filter (\<lambda>c. is_merge_call (snd c)) (takeWhile (\<lambda>c. snd c \<noteq> HigherGearExit) (qs @ cs))
       = filter (\<lambda>c. is_merge_call (snd c)) (takeWhile (\<lambda>c. snd c \<noteq> HigherGearExit) cs)"
  by (simp add: takeWhile_queries filter_merge_queries)

lemma merge_calls_stamped:
  "list_all (\<lambda>c. P c \<and> is_query (snd c)) qs \<Longrightarrow>
   \<forall>c\<in>set cs. is_merge_call (snd c) \<longrightarrow> fst c = Normal \<Longrightarrow>
   \<forall>c\<in>set (qs @ cs). is_merge_call (snd c) \<longrightarrow> fst c = Normal"
  using queries_not_merge[of P qs] by auto

lemma queries_not_exit:
  "list_all (\<lambda>c. P c \<and> is_query (snd c)) qs \<Longrightarrow> (g, HigherGearExit) \<notin> set qs"
  by (auto simp: list_all_iff)



section \<open>Evaluation of the samples\<close>

lemmas sample_defs = alice_def bob_def carol_def roster_def alice_phone_def bob_phone_def
  registry_def sample_collaborators_def alice_and_bob_def start_def coffee_def

lemmas component_defs = update_after_event_def get_player_using_phone_def is_phone_event_def
  get_player_from_event_def run_phone_scene_def ask_def scene_build_def scene_run_episode_def
  player_context_def new_calls_def observe_def memory_add_def higher_gear_enter_def

lemmas run_defs = no_phone_def phone_but_nobody_def garden_def dave_def app_events_def
  failing_run_def coffee_run_def garden_run_def dave_run_def empty_roster_run_def
  resolver_run_def failing_add_def partial_run_def accelerated_run_def

section \<open>The claims\<close>

text \<open>
  C1. For every call of \<open>update_after_event\<close>, whatever gear the clock is in at the
  start and whether the call returns or raises, also when the nested episode fails
  partway, the clock is afterwards in the gear it was in before. On every path on
  which the scope of the accelerated gear was left, the clock is in normal gear at the
  end.
\<close>

theorem gear_restored_after_update:
  assumes "update_after_event env players phones s w = (r, w')"
  shows "gear w' = gear w \<and>
         ((\<exists>g. (g, HigherGearExit) \<in> set (new_calls w w')) \<longrightarrow> gear w' = Normal)"
proof -
  from update_after_event_cases[OF assms] obtain r1 w1 qs where
    f: "calls w1 = calls w @ qs" "list_all (\<lambda>c. fst c = gear w \<and> is_query (snd c)) qs"
       "gear w1 = gear w" "logs w1 = logs w" "memory w1 = memory w"
    and c: "(\<exists>e. r1 = Inl e \<and> r = Inl e \<and> w' = w1) \<or>
      (r1 = Inr None \<and> r = Inr () \<and> w' = w1) \<or>
      (\<exists>p rr. r1 = Inr (Some p) \<and> p \<in> set players \<and>
         run_phone_scene env phones p w1 = (rr, w') \<and> r = map_sum id (\<lambda>_. ()) rr)"
    by blast
  note n = queries_not_exit[OF f(2)]
  from c show ?thesis
  proof (elim disjE exE conjE)
    fix e assume "w' = w1"
    with f n show ?thesis by simp
  next
    assume "w' = w1"
    with f n show ?thesis by simp
  next
    fix p rr assume "run_phone_scene env phones p w1 = (rr, w')"
    from run_phone_scene_cases[OF this] f n show ?thesis
      by (elim disjE exE conjE) simp_all
  qed
qed

theorem gear_restored_after_update_witness:
  "fst failing_run = Inl (CollaboratorFailure ''episode failed'') \<and>
   (Accelerated, HigherGearExit) \<in> set (new_calls start (snd failing_run)) \<and>
   gear (snd failing_run) = gear start \<and>
   gear (snd failing_run) = Normal \<and>
   fst accelerated_run = Inl (CollaboratorFailure ''accelerated gear already held'') \<and>
   gear (snd accelerated_run) = Accelerated"
proof -
  have run: "update_after_event
       (sample_collaborators alice_and_bob (Inl (CollaboratorFailure ''episode failed'')))
       roster registry coffee start = (fst failing_run, snd failing_run)"
    by (simp add: failing_run_def)
  have run': "update_after_event (sample_collaborators alice_and_bob (Inr app_events))
       roster registry coffee (start\<lparr>gear := Accelerated\<rparr>)
       = (fst accelerated_run, snd accelerated_run)"
    by (simp add: accelerated_run_def)
  have e: "(Accelerated, HigherGearExit) \<in> set (new_calls start (snd failing_run))"
    by (simp add: failing_run_def component_defs sample_defs)
  have r: "fst failing_run = Inl (CollaboratorFailure ''episode failed'')"
    by (simp add: failing_run_def component_defs sample_defs)
  have r': "fst accelerated_run = Inl (CollaboratorFailure ''accelerated gear already held'')"
    by (simp add: accelerated_run_def component_defs sample_defs)
  from gear_restored_after_update[OF run] gear_restored_after_update[OF run'] e r r'
  show ?thesis by auto
qed



text \<open>
  C3. When the classifier answers false for a statement, \<open>update_after_event\<close>
  returns having made exactly three calls: the two log lines and the classifier's
  question. No per-player question is asked, no scene is built, nothing is observed and
  nothing is added to the shared memory; gear, logs and memory are as before.
\<close>

theorem not_phone_event_no_effects:
  assumes "update_after_event env players phones s w = (r, w')"
    and "fst (is_phone_event env s w) = Inr False"
  shows "r = Inr () \<and> gear w' = gear w \<and> logs w' = logs w \<and> memory w' = memory w \<and>
     new_calls w w' =
       [(gear w, SemiVerbose ''Checking if the phone was used...''),
        (gear w, YesNoQuestion (''Event: '' @ s) PhoneEventQuestion (Inr False)),
        (gear w, SemiVerbose ''The phone was not used.'')]"
proof -
  let ?w0 = "semi_verbose ''Checking if the phone was used...'' w"
  obtain a w1 where a: "is_phone_event env s ?w0 = (a, w1)"
    by (cases "is_phone_event env s ?w0")
  have "ext ?w0 = ext w" by simp
  from is_phone_event_ext[OF this, of env s] a assms(2) have af: "a = Inr False" by simp
  from a have "ask env (''Event: '' @ s) PhoneEventQuestion ?w0 = (a, w1)"
    by (simp add: is_phone_event_def)
  note f = ask_fields(1-4)[OF this]
  from assms(1) a af have "r = Inr ()" "w' = semi_verbose ''The phone was not used.'' w1"
    by (simp_all add: update_after_event_def get_player_using_phone_def)
  with f af show ?thesis by simp
qed

theorem not_phone_event_no_effects_witness:
  "fst (is_phone_event (sample_collaborators no_phone (Inr app_events)) garden start) = Inr False \<and>
   fst garden_run = Inr () \<and> gear (snd garden_run) = Normal \<and>
   logs (snd garden_run) = logs start \<and> memory (snd garden_run) = memory start \<and>
   new_calls start (snd garden_run) =
     [(Normal, SemiVerbose ''Checking if the phone was used...''),
      (Normal, YesNoQuestion ''Event: Bob watered the garden'' PhoneEventQuestion (Inr False)),
      (Normal, SemiVerbose ''The phone was not used.'')]"
proof -
  have run: "update_after_event (sample_collaborators no_phone (Inr app_events))
       roster registry garden start = (fst garden_run, snd garden_run)"
    by (simp add: garden_run_def)
  have h: "fst (is_phone_event (sample_collaborators no_phone (Inr app_events)) garden start)
      = Inr False"
    by (simp add: is_phone_event_def ask_def sample_defs run_defs)
  from not_phone_event_no_effects[OF run h] h show ?thesis
    by (simp add: start_def garden_def)
qed

text \<open>
  C4. When the classifier answers true and the resolver finds no player,
  \<open>update_after_event\<close> returns having made only the log lines, the classifier's
  question and one question per player of the roster, each answered false. No scene is
  built, nothing is observed and nothing is added to the shared memory; gear, logs and
  memory are as before.
\<close>

theorem no_player_no_effects:
  assumes "update_after_event env players phones s w = (r, w')"
    and "fst (is_phone_event env s w) = Inr True"
    and "fst (get_player_from_event env players s (snd (is_phone_event env s w))) = Inr None"
  shows "r = Inr () \<and> gear w' = gear w \<and> logs w' = logs w \<and> memory w' = memory w \<and>
     new_calls w w' =
       [(gear w, SemiVerbose ''Checking if the phone was used...''),
        (gear w, YesNoQuestion (''Event: '' @ s) PhoneEventQuestion (Inr True))]
       @ asked (gear w) (player_context s) False players
       @ [(gear w, SemiVerbose ''The phone was not used.'')]"
proof -
  let ?w0 = "semi_verbose ''Checking if the phone was used...'' w"
  obtain a w1 where a: "is_phone_event env s ?w0 = (a, w1)"
    by (cases "is_phone_event env s ?w0")
  have "ext ?w0 = ext w" by simp
  from is_phone_event_ext[OF this, of env s] a assms(2)
  have af: "a = Inr True" and x1: "ext w1 = ext (snd (is_phone_event env s w))" by simp_all
  from a have "ask env (''Event: '' @ s) PhoneEventQuestion ?w0 = (a, w1)"
    by (simp add: is_phone_event_def)
  note f = ask_fields(1-4)[OF this]
  obtain b w2 where b: "players_loop env (player_context s) players w1 = (b, w2)"
    by (cases "players_loop env (player_context s) players w1")
  from players_loop_ext[OF x1, of env "player_context s" players] b assms(3)
  have bn: "b = Inr None" by (simp add: get_player_from_event_def)
  note g = players_loop_frame[OF b]
  from players_loop_calls[OF b] bn
  have c: "calls w2 = calls w1 @ asked (gear w1) (player_context s) False players" by simp
  from assms(1) a af b bn have "r = Inr ()" "w' = semi_verbose ''The phone was not used.'' w2"
    by (simp_all add: update_after_event_def get_player_using_phone_def get_player_from_event_def)
  with f af g c show ?thesis by simp
qed

theorem no_player_no_effects_witness:
  "fst (is_phone_event (sample_collaborators phone_but_nobody (Inr app_events)) dave start)
     = Inr True \<and>
   fst (get_player_from_event (sample_collaborators phone_but_nobody (Inr app_events)) roster dave
     (snd (is_phone_event (sample_collaborators phone_but_nobody (Inr app_events)) dave start)))
     = Inr None \<and>
   fst dave_run = Inr () \<and> gear (snd dave_run) = Normal \<and>
   logs (snd dave_run) = logs start \<and> memory (snd dave_run) = memory start \<and>
   map snd (new_calls start (snd dave_run)) =
     [SemiVerbose ''Checking if the phone was used...'',
      YesNoQuestion ''Event: Carol told Dave to check his phone'' PhoneEventQuestion (Inr True),
      YesNoQuestion (player_context dave) (PlayerUsingPhoneQuestion ''Alice'') (Inr False),
      YesNoQuestion (player_context dave) (PlayerUsingPhoneQuestion ''Bob'') (Inr False),
      YesNoQuestion (player_context dave) (PlayerUsingPhoneQuestion ''Carol'') (Inr False),
      SemiVerbose ''The phone was not used.'']"
proof -
  have run: "update_after_event (sample_collaborators phone_but_nobody (Inr app_events))
       roster registry dave start = (fst dave_run, snd dave_run)"
    by (simp add: dave_run_def)
  have h1: "fst (is_phone_event (sample_collaborators phone_but_nobody (Inr app_events)) dave
      start) = Inr True"
    by (simp add: is_phone_event_def ask_def sample_defs run_defs)
  have h2: "fst (get_player_from_event (sample_collaborators phone_but_nobody (Inr app_events))
     roster dave
     (snd (is_phone_event (sample_collaborators phone_but_nobody (Inr app_events)) dave start)))
     = Inr None"
    by (simp add: get_player_from_event_def is_phone_event_def ask_def sample_defs run_defs)
  from no_player_no_effects[OF run h1 h2] h1 h2 show ?thesis
    by (simp add: start_def dave_def asked_def roster_def alice_def bob_def carol_def)
qed

text \<open>
  C5. The resolver returns the first player in roster order whose question is
  answered true: the players before that one were each asked and answered false, that
  one was asked and answered true, and no player after that one was asked. When every
  player is answered false it returns none, having asked each once; when a question
  raises, the players before were answered false and nobody after was asked. With a
  model that answers by a fixed judgement of the player's name the result is the first
  player of the roster that the judgement holds for, so of two players that would both
  be judged true the earlier one is returned.
\<close>

theorem first_matching_player:
  assumes "get_player_from_event env players s w = (r, w')"
  shows "(case r of
        Inr (Some p) \<Rightarrow>
          \<exists>pre post. players = pre @ p # post \<and>
            new_calls w w' = asked (gear w) (player_context s) False pre
              @ asked (gear w) (player_context s) True [p]
      | Inr None \<Rightarrow> new_calls w w' = asked (gear w) (player_context s) False players
      | Inl e \<Rightarrow>
          \<exists>pre q post. players = pre @ q # post \<and>
            new_calls w w' = asked (gear w) (player_context s) False pre
              @ [(gear w, YesNoQuestion (player_context s)
                    (PlayerUsingPhoneQuestion (name q)) (Inl e))]) \<and>
     ((\<forall>p\<in>set players. \<forall>x.
         fst (yes_no_question env (player_context s) (PlayerUsingPhoneQuestion (name p)) x)
           = Inr (judge (name p)))
      \<longrightarrow> r = Inr (find (\<lambda>p. judge (name p)) players))"
proof -
  from assms have l: "players_loop env (player_context s) players w = (r, w')"
    by (simp add: get_player_from_event_def)
  have det: "r = Inr (find (\<lambda>p. judge (name p)) players)"
    if "\<forall>p\<in>set players. \<forall>x.
         fst (yes_no_question env (player_context s) (PlayerUsingPhoneQuestion (name p)) x)
           = Inr (judge (name p))"
    using players_loop_find[OF that, of w] l by simp
  have tr: "(case r of
        Inr (Some p) \<Rightarrow>
          \<exists>pre post. players = pre @ p # post \<and>
            new_calls w w' = asked (gear w) (player_context s) False pre
              @ asked (gear w) (player_context s) True [p]
      | Inr None \<Rightarrow> new_calls w w' = asked (gear w) (player_context s) False players
      | Inl e \<Rightarrow>
          \<exists>pre q post. players = pre @ q # post \<and>
            new_calls w w' = asked (gear w) (player_context s) False pre
              @ [(gear w, YesNoQuestion (player_context s)
                    (PlayerUsingPhoneQuestion (name q)) (Inl e))])"
  proof (cases r)
    case (Inl e)
    with players_loop_calls[OF l] obtain pre q post where
      "players = pre @ q # post"
      "calls w' = calls w @ asked (gear w) (player_context s) False pre
              @ [(gear w, YesNoQuestion (player_context s)
                    (PlayerUsingPhoneQuestion (name q)) (Inl e))]"
      by auto
    then have "players = pre @ q # post \<and>
        new_calls w w' = asked (gear w) (player_context s) False pre
              @ [(gear w, YesNoQuestion (player_context s)
                    (PlayerUsingPhoneQuestion (name q)) (Inl e))]"
      by simp
    with Inl show ?thesis by (simp only: sum.case) blast
  next
    case (Inr found)
    show ?thesis
    proof (cases found)
      case None
      with Inr players_loop_calls[OF l] show ?thesis by simp
    next
      case (Some p)
      with Inr players_loop_calls[OF l] obtain pre post where
        "players = pre @ p # post"
        "calls w' = calls w @ asked (gear w) (player_context s) False pre
              @ asked (gear w) (player_context s) True [p]"
        by auto
      then have "players = pre @ p # post \<and>
          new_calls w w' = asked (gear w) (player_context s) False pre
              @ asked (gear w) (player_context s) True [p]"
        by simp
      with Inr Some show ?thesis by (simp only: sum.case option.case) blast
    qed
  qed
  from tr det show ?thesis by blast
qed

theorem first_matching_player_witness:
  "find (\<lambda>p. name p = ''Alice'' \<or> name p = ''Bob'') roster = Some alice \<and>
   fst resolver_run = Inr (Some alice) \<and>
   (\<exists>pre post. roster = pre @ alice # post \<and>
      new_calls start (snd resolver_run) = asked Normal (player_context coffee) False pre
        @ asked Normal (player_context coffee) True [alice]) \<and>
   length (new_calls start (snd resolver_run)) = 1"
proof -
  let ?env = "sample_collaborators alice_and_bob (Inr app_events)"
  let ?judge = "\<lambda>n. n = ''Alice'' \<or> n = ''Bob''"
  have run: "get_player_from_event ?env roster coffee start = (fst resolver_run, snd resolver_run)"
    by (simp add: resolver_run_def)
  have h: "\<forall>p\<in>set roster. \<forall>x.
      fst (yes_no_question ?env (player_context coffee) (PlayerUsingPhoneQuestion (name p)) x)
        = Inr (?judge (name p))"
    by (simp add: sample_defs)
  have f: "find (\<lambda>p. ?judge (name p)) roster = Some alice"
    by (simp add: sample_defs)
  have n: "length (new_calls start (snd resolver_run)) = 1"
    by (simp add: resolver_run_def component_defs sample_defs)
  from first_matching_player[OF run, of ?judge] h f
  have r: "fst resolver_run = Inr (Some alice)" by simp
  from first_matching_player[OF run, of ?judge] r
  have "\<exists>pre post. roster = pre @ alice # post \<and>
      new_calls start (snd resolver_run) = asked (gear start) (player_context coffee) False pre
        @ asked (gear start) (player_context coffee) True [alice]"
    by simp
  moreover have "gear start = Normal" by (simp add: start_def)
  ultimately show ?thesis using f r n by simp
qed

text \<open>
  C6. \<open>get_phone\<close> returns a phone of the registry whose \<open>player_name\<close> equals
  the given name, the first such phone, and never another one; when no phone of the
  registry has that name it raises \<open>StopIteration\<close>.
\<close>

theorem get_phone_exact_or_raise:
  "(case get_phone phones n of
      Inr ph \<Rightarrow> ph \<in> set phones \<and> player_name ph = n \<and>
                find (\<lambda>ph. player_name ph = n) phones = Some ph
    | Inl e \<Rightarrow> e = StopIteration \<and> (\<forall>ph\<in>set phones. player_name ph \<noteq> n))"
proof (cases "get_phone phones n")
  case (Inl e)
  from get_phone_Inl[OF Inl] Inl get_phone_Inl_iff[of phones n] show ?thesis by simp
next
  case (Inr ph)
  from get_phone_Inr[OF Inr] Inr get_phone_find[of phones n] show ?thesis
    by (simp split: option.splits)
qed

theorem get_phone_exact_or_raise_witness:
  "get_phone registry ''Alice'' = Inr alice_phone \<and>
   find (\<lambda>ph. player_name ph = ''Alice'') registry = Some alice_phone \<and>
   get_phone registry ''Carol'' = Inl StopIteration"
  using get_phone_exact_or_raise[of registry "''Alice''"]
    get_phone_exact_or_raise[of registry "''Carol''"]
  by (simp add: sample_defs)




text \<open>
  C8. \<open>partial_state\<close> leaves the world as it is. For a name that a phone of the
  registry carries it returns the description of the first such phone; for a name that
  no phone carries it raises \<open>StopIteration\<close>.
\<close>

theorem partial_state_reads_description:
  "snd (partial_state phones n w) = w \<and>
   (case find (\<lambda>ph. player_name ph = n) phones of
      Some ph \<Rightarrow> fst (partial_state phones n w) = Inr (description ph) \<and>
                 ph \<in> set phones \<and> player_name ph = n
    | None \<Rightarrow> fst (partial_state phones n w) = Inl StopIteration \<and>
              (\<forall>ph\<in>set phones. player_name ph \<noteq> n))"
proof (cases "get_phone phones n")
  case (Inl e)
  from get_phone_Inl[OF Inl] Inl get_phone_Inl_iff[of phones n] get_phone_find[of phones n]
  show ?thesis by (simp add: partial_state_def split: option.splits)
next
  case (Inr ph)
  from get_phone_Inr[OF Inr] Inr get_phone_find[of phones n] show ?thesis
    by (simp add: partial_state_def split: option.splits)
qed

theorem partial_state_reads_description_witness:
  "snd (partial_state registry ''Bob'' start) = start \<and>
   fst (partial_state registry ''Bob'' start) = Inr ''Bob has the app Mastodon'' \<and>
   fst (partial_state registry ''Carol'' start) = Inl StopIteration"
  using partial_state_reads_description[of registry "''Bob''" start]
    partial_state_reads_description[of registry "''Carol''" start]
  by (simp add: sample_defs)

text \<open>
  C9. With an empty roster the resolver asks nothing and returns none, leaving the
  world as it is; \<open>update_after_event\<close> then makes only the first log line and the
  classifier's question, and a second log line unless the classifier raised. No scene
  is built, nothing is observed or added to the memory, and gear, logs and memory are
  as before, whatever the classifier answered.
\<close>

theorem empty_roster_no_effects:
  "get_player_from_event env [] s w = (Inr None, w) \<and>
   (update_after_event env [] phones s w = (r, w') \<longrightarrow>
      gear w' = gear w \<and> logs w' = logs w \<and> memory w' = memory w \<and>
      r = map_sum id (\<lambda>_. ()) (fst (is_phone_event env s w)) \<and>
      new_calls w w' =
        [(gear w, SemiVerbose ''Checking if the phone was used...''),
         (gear w, YesNoQuestion (''Event: '' @ s) PhoneEventQuestion
                    (fst (is_phone_event env s w)))]
        @ (case fst (is_phone_event env s w) of
             Inl e \<Rightarrow> []
           | Inr b \<Rightarrow> [(gear w, SemiVerbose ''The phone was not used.'')]))"
proof -
  let ?w0 = "semi_verbose ''Checking if the phone was used...'' w"
  obtain a w1 where a: "is_phone_event env s ?w0 = (a, w1)"
    by (cases "is_phone_event env s ?w0")
  have "ext ?w0 = ext w" by simp
  from is_phone_event_ext[OF this, of env s] a
  have af: "fst (is_phone_event env s w) = a" by simp
  from a have "ask env (''Event: '' @ s) PhoneEventQuestion ?w0 = (a, w1)"
    by (simp add: is_phone_event_def)
  note f = ask_fields(1-4)[OF this]
  have 1: "get_player_from_event env [] s w = (Inr None, w)"
    by (simp add: get_player_from_event_def)
  have 2: "gear w' = gear w \<and> logs w' = logs w \<and> memory w' = memory w \<and>
      r = map_sum id (\<lambda>_. ()) a \<and>
      new_calls w w' =
        [(gear w, SemiVerbose ''Checking if the phone was used...''),
         (gear w, YesNoQuestion (''Event: '' @ s) PhoneEventQuestion a)]
        @ (case a of
             Inl e \<Rightarrow> []
           | Inr b \<Rightarrow> [(gear w, SemiVerbose ''The phone was not used.'')])"
    if run: "update_after_event env [] phones s w = (r, w')"
  proof (cases a)
    case (Inl e)
    with run a have "r = Inl e" "w' = w1"
      by (simp_all add: update_after_event_def get_player_using_phone_def)
    with f Inl show ?thesis by simp
  next
    case (Inr b)
    with run a have "r = Inr ()" "w' = semi_verbose ''The phone was not used.'' w1"
      by (cases b; simp add: update_after_event_def get_player_using_phone_def
            get_player_from_event_def)+
    with f Inr show ?thesis by simp
  qed
  from 1 2 af show ?thesis by blast
qed

theorem empty_roster_no_effects_witness:
  "get_player_from_event (sample_collaborators alice_and_bob (Inr app_events)) [] coffee start
     = (Inr None, start) \<and>
   fst empty_roster_run = Inr () \<and> gear (snd empty_roster_run) = Normal \<and>
   logs (snd empty_roster_run) = logs start \<and> memory (snd empty_roster_run) = memory start \<and>
   new_calls start (snd empty_roster_run) =
     [(Normal, SemiVerbose ''Checking if the phone was used...''),
      (Normal, YesNoQuestion (''Event: '' @ coffee) PhoneEventQuestion (Inr True)),
      (Normal, SemiVerbose ''The phone was not used.'')]"
proof -
  let ?env = "sample_collaborators alice_and_bob (Inr app_events)"
  have run: "update_after_event ?env [] registry coffee start
      = (fst empty_roster_run, snd empty_roster_run)"
    by (simp add: empty_roster_run_def)
  have c: "fst (is_phone_event ?env coffee start) = Inr True"
    by (simp add: is_phone_event_def ask_def sample_defs)
  have g: "gear start = Normal" by (simp add: start_def)
  from empty_roster_no_effects[of ?env coffee start registry "fst empty_roster_run"
      "snd empty_roster_run"] run c g
  show ?thesis by simp
qed

text \<open>
  C10. Every \<open>observe\<close> call and every addition to the shared memory made during
  \<open>update_after_event\<close> is made while the clock is in normal gear, and none of them is
  made before the exit from the accelerated gear.
\<close>

theorem merge_calls_in_normal_gear:
  assumes "update_after_event env players phones s w = (r, w')"
  shows "(\<forall>c\<in>set (new_calls w w'). is_merge_call (snd c) \<longrightarrow> fst c = Normal) \<and>
     filter (\<lambda>c. is_merge_call (snd c))
       (takeWhile (\<lambda>c. snd c \<noteq> HigherGearExit) (new_calls w w')) = []"
proof -
  from update_after_event_cases[OF assms] obtain r1 w1 qs where
    f: "calls w1 = calls w @ qs" "list_all (\<lambda>c. fst c = gear w \<and> is_query (snd c)) qs"
       "gear w1 = gear w"
    and c: "(\<exists>e. r1 = Inl e \<and> r = Inl e \<and> w' = w1) \<or>
      (r1 = Inr None \<and> r = Inr () \<and> w' = w1) \<or>
      (\<exists>p rr. r1 = Inr (Some p) \<and> p \<in> set players \<and>
         run_phone_scene env phones p w1 = (rr, w') \<and> r = map_sum id (\<lambda>_. ()) rr)"
    by blast
  have split: "\<exists>cs. new_calls w w' = qs @ cs \<and>
      (\<forall>c\<in>set cs. is_merge_call (snd c) \<longrightarrow> fst c = Normal) \<and>
      filter (\<lambda>c. is_merge_call (snd c)) (takeWhile (\<lambda>c. snd c \<noteq> HigherGearExit) cs) = []"
    using c
  proof (elim disjE exE conjE)
    fix e assume "w' = w1"
    with f have "new_calls w w' = qs @ []" by simp
    then show ?thesis by (intro exI[of _ "[]"]) simp
  next
    assume "w' = w1"
    with f have "new_calls w w' = qs @ []" by simp
    then show ?thesis by (intro exI[of _ "[]"]) simp
  next
    fix p rr
    assume "run_phone_scene env phones p w1 = (rr, w')"
    from run_phone_scene_cases[OF this] show ?thesis
    proof (elim disjE exE conjE)
      assume "w' = w1"
      with f have "new_calls w w' = qs @ []" by simp
      then show ?thesis by (intro exI[of _ "[]"]) simp
    next
      fix ph e
      assume "calls w' = calls w1 @ [(gear w1, SceneBuild p ph (Inl e))]"
      with f have "new_calls w w' = qs @ [(gear w1, SceneBuild p ph (Inl e))]" by simp
      then show ?thesis by (intro exI[of _ "[(gear w1, SceneBuild p ph (Inl e))]"]) simp
    next
      fix ph sc e
      assume "calls w' = calls w1 @ [(gear w1, SceneBuild p ph (Inr sc)), (gear w1, HigherGearEnter)]"
      with f have "new_calls w w' = qs @ [(gear w1, SceneBuild p ph (Inr sc)),
          (gear w1, HigherGearEnter)]" by simp
      then show ?thesis
        by (intro exI[of _ "[(gear w1, SceneBuild p ph (Inr sc)), (gear w1, HigherGearEnter)]"])
           simp
    next
      fix ph sc e
      assume "calls w' = calls w1 @ [(gear w1, SceneBuild p ph (Inr sc)), (gear w1, HigherGearEnter),
          (Accelerated, RunEpisode sc (Inl e)), (Accelerated, HigherGearExit)]"
      with f have "new_calls w w' = qs @ [(gear w1, SceneBuild p ph (Inr sc)),
          (gear w1, HigherGearEnter),
          (Accelerated, RunEpisode sc (Inl e)), (Accelerated, HigherGearExit)]" by simp
      then show ?thesis
        by (intro exI[of _ "[(gear w1, SceneBuild p ph (Inr sc)), (gear w1, HigherGearEnter),
          (Accelerated, RunEpisode sc (Inl e)), (Accelerated, HigherGearExit)]"]) simp
    next
      fix ph sc es n
      assume "calls w' = calls w1 @ [(gear w1, SceneBuild p ph (Inr sc)), (gear w1, HigherGearEnter),
          (Accelerated, RunEpisode sc (Inr es)), (Accelerated, HigherGearExit)]
          @ take n (merge_calls Normal p es)"
      with f have "new_calls w w' = qs @ [(gear w1, SceneBuild p ph (Inr sc)),
          (gear w1, HigherGearEnter),
          (Accelerated, RunEpisode sc (Inr es)), (Accelerated, HigherGearExit)]
          @ take n (merge_calls Normal p es)" by simp
      then show ?thesis
        by (intro exI[of _ "[(gear w1, SceneBuild p ph (Inr sc)), (gear w1, HigherGearEnter),
          (Accelerated, RunEpisode sc (Inr es)), (Accelerated, HigherGearExit)]
          @ take n (merge_calls Normal p es)"]) (auto dest: take_merge_calls)
    qed
  qed
  then obtain cs where cs: "new_calls w w' = qs @ cs"
      "\<forall>c\<in>set cs. is_merge_call (snd c) \<longrightarrow> fst c = Normal"
      "filter (\<lambda>c. is_merge_call (snd c)) (takeWhile (\<lambda>c. snd c \<noteq> HigherGearExit) cs) = []"
    by blast
  from merge_calls_stamped[OF f(2) cs(2)] takeWhile_exit_queries[OF f(2), of cs] cs(1,3)
  show ?thesis by simp
qed

theorem merge_calls_in_normal_gear_witness:
  "filter (\<lambda>c. is_merge_call (snd c)) (new_calls start (snd coffee_run)) =
     [(Normal, Observe 0 ''Alice opens her messaging app''),
      (Normal, MemoryAdd ''Alice opens her messaging app''),
      (Normal, Observe 0 ''Alice reads two new messages''),
      (Normal, MemoryAdd ''Alice reads two new messages'')] \<and>
   list_all (\<lambda>c. fst c = Normal)
     (filter (\<lambda>c. is_merge_call (snd c)) (new_calls start (snd coffee_run))) \<and>
   filter (\<lambda>c. is_merge_call (snd c))
     (takeWhile (\<lambda>c. snd c \<noteq> HigherGearExit) (new_calls start (snd coffee_run))) = []"
proof -
  have run: "update_after_event (sample_collaborators alice_and_bob (Inr app_events))
       roster registry coffee start = (fst coffee_run, snd coffee_run)"
    by (simp add: coffee_run_def)
  have m: "filter (\<lambda>c. is_merge_call (snd c)) (new_calls start (snd coffee_run)) =
     [(Normal, Observe 0 ''Alice opens her messaging app''),
      (Normal, MemoryAdd ''Alice opens her messaging app''),
      (Normal, Observe 0 ''Alice reads two new messages''),
      (Normal, MemoryAdd ''Alice reads two new messages'')]"
    by (simp add: coffee_run_def component_defs sample_defs app_events_def)
  from merge_calls_in_normal_gear[OF run]
  have "list_all (\<lambda>c. fst c = Normal)
     (filter (\<lambda>c. is_merge_call (snd c)) (new_calls start (snd coffee_run))) \<and>
   filter (\<lambda>c. is_merge_call (snd c))
     (takeWhile (\<lambda>c. snd c \<noteq> HigherGearExit) (new_calls start (snd coffee_run))) = []"
    by (simp add: list_all_iff)
  with m show ?thesis by blast
qed

end
